theory Spec2Isabelle
  imports Main "HOL-Library.Sublist"
begin

section \<open>Characters and Python string primitives\<close>

text \<open>
  The program under study is \<^verbatim>\<open>PayPal2CSV.py\<close>: a line-oriented parser of statement
  text (\<^verbatim>\<open>PayPalPDFParser\<close>) and a heuristic payee extractor (\<^verbatim>\<open>PayeeExtractor\<close>), both
  built on Python's \<^verbatim>\<open>re\<close> module and \<^verbatim>\<open>str\<close> methods.

  A Python \<^verbatim>\<open>str\<close> is modelled as a \<^typ>\<open>string\<close>. A \<^typ>\<open>char\<close> below 128 is the ASCII
  code point of the same number. A \<^typ>\<open>char\<close> from 128 on stands for a non-ASCII code point.
  Three of them are named:
  \<^item> \<open>bullet\<close> is U+2022, the only non-ASCII character the source names;
  \<^item> \<open>dotted_I\<close> is U+0130, the capital I with a dot above. It is the one code point
    whose \<^verbatim>\<open>str.lower()\<close> is two code points (\<^verbatim>\<open>i\<close> and U+0307), so it is the one character
    for which an index found in \<^verbatim>\<open>text.lower()\<close> is not the same index in \<^verbatim>\<open>text\<close>. It is an
    uppercase letter and a word character, and under \<^verbatim>\<open>re.I\<close> it matches \<^verbatim>\<open>i\<close> and \<^verbatim>\<open>I\<close>;
  \<^item> \<open>combining_dot\<close> is U+0307, the combining dot above in which that lower-casing
    ends.

  Every other \<^typ>\<open>char\<close> from 128 on, as the bullet and the combining dot, stands for a
  code point that has no case and is neither whitespace, a digit nor a word character (a
  symbol). Strings with other non-ASCII letters, digits or spaces are outside the model.
\<close>

definition bullet :: char where
  "bullet = CHR 0x95"

definition dotted_I :: char where
  "dotted_I = CHR 0x9C"

definition combining_dot :: char where
  "combining_dot = CHR 0x9D"

definition ascii_uppercase :: string where
  "ascii_uppercase = ''ABCDEFGHIJKLMNOPQRSTUVWXYZ''"

definition ascii_lowercase :: string where
  "ascii_lowercase = ''abcdefghijklmnopqrstuvwxyz''"

definition ascii_digits :: string where
  "ascii_digits = ''0123456789''"

definition ascii_whitespace :: string where
  "ascii_whitespace =
     [CHR '' '', CHR 0x09, CHR 0x0A, CHR 0x0B, CHR 0x0C, CHR 0x0D,
      CHR 0x1C, CHR 0x1D, CHR 0x1E, CHR 0x1F]"

definition is_upper :: "char \<Rightarrow> bool" where
  "is_upper c = (c \<in> set ascii_uppercase \<or> c = dotted_I)"

definition is_lower :: "char \<Rightarrow> bool" where
  "is_lower c = (c \<in> set ascii_lowercase)"

definition is_digit :: "char \<Rightarrow> bool" where
  "is_digit c = (c \<in> set ascii_digits)"

definition is_space :: "char \<Rightarrow> bool" where
  "is_space c = (c \<in> set ascii_whitespace)"

definition is_word :: "char \<Rightarrow> bool" where
  "is_word c = (is_upper c \<or> is_lower c \<or> is_digit c \<or> c = CHR ''_'')"

text \<open>
  \<open>lower_char\<close> is the lower-casing of one character to one character, which \<^verbatim>\<open>re\<close> uses
  to compare under \<^verbatim>\<open>re.I\<close>. \<open>lower\<close> is \<^verbatim>\<open>str.lower()\<close>; it differs on \<open>dotted_I\<close>, whose
  lower-casing is two characters.
\<close>

definition lower_char :: "char \<Rightarrow> char" where
  "lower_char c =
     (case map_of (zip ascii_uppercase ascii_lowercase) c of
        None \<Rightarrow> (if c = dotted_I then CHR ''i'' else c)
      | Some d \<Rightarrow> d)"

definition lower_str :: "char \<Rightarrow> string" where
  "lower_str c = (if c = dotted_I then [CHR ''i'', combining_dot] else [lower_char c])"

definition lower :: "string \<Rightarrow> string" where
  "lower s = concat (map lower_str s)"

section \<open>Regular expressions as Python's \<^verbatim>\<open>re\<close> matches them\<close>

text \<open>
  An atom matches one character. Under \<^verbatim>\<open>re.I\<close> (the flag \<open>ic\<close>) a literal and a
  character set compare lower-cased; the classes \<^verbatim>\<open>\d\<close>, \<^verbatim>\<open>\s\<close>, \<^verbatim>\<open>\S\<close> and \<^verbatim>\<open>.\<close> do not
  depend on case. The ranges \<^verbatim>\<open>[A-Z]\<close> and \<^verbatim>\<open>[a-z]\<close> of the source are the sets
  \<open>OneOf ascii_uppercase\<close> and \<open>OneOf ascii_lowercase\<close>.
\<close>

datatype atom = Lit char | Dot | Digit | Space | NonSpace | OneOf string

fun atom_match :: "bool \<Rightarrow> atom \<Rightarrow> char \<Rightarrow> bool" where
  "atom_match ic (Lit p) c = (if ic then lower_char c = lower_char p else c = p)"
| "atom_match ic Dot c = (c \<noteq> CHR 0x0A)"
| "atom_match ic Digit c = is_digit c"
| "atom_match ic Space c = is_space c"
| "atom_match ic NonSpace c = (\<not> is_space c)"
| "atom_match ic (OneOf ps) c =
     (if ic then lower_char c \<in> set (map lower_char ps) else c \<in> set ps)"

text \<open>
  A cursor is a position in the subject string: the text before it, reversed, and the
  text after it. \<open>ends ic r z\<close> lists the positions where a match of \<open>r\<close> that starts
  at \<open>z\<close> can end, in the order in which a backtracking matcher tries them: the left
  alternative first, and one more iteration of a (greedy) star before none. The head of
  the list is the match that \<^verbatim>\<open>re\<close> reports at that start position.
\<close>

text \<open>
  \<open>Bol\<close> is \<^verbatim>\<open>^\<close> and \<open>Eol\<close> is \<^verbatim>\<open>$\<close> without \<^verbatim>\<open>re.MULTILINE\<close> (the end of the string,
  or just before a newline that ends it); \<open>WordB\<close> is \<^verbatim>\<open>\b\<close>.
\<close>

datatype regex =
    Eps
  | Atom atom
  | Seq regex regex
  | Alt regex regex
  | Star regex
  | Bol
  | Eol
  | WordB

type_synonym cursor = "string \<times> string"

definition at_word_boundary :: "cursor \<Rightarrow> bool" where
  "at_word_boundary z =
     ((case fst z of [] \<Rightarrow> False | p # _ \<Rightarrow> is_word p) \<noteq>
      (case snd z of [] \<Rightarrow> False | n # _ \<Rightarrow> is_word n))"

fun ends :: "bool \<Rightarrow> regex \<Rightarrow> cursor \<Rightarrow> cursor list" where
  "ends ic Eps z = [z]"
| "ends ic (Atom a) z =
     (case snd z of [] \<Rightarrow> []
      | c # cs \<Rightarrow> if atom_match ic a c then [(c # fst z, cs)] else [])"
| "ends ic (Seq r1 r2) z = concat (map (ends ic r2) (ends ic r1 z))"
| "ends ic (Alt r1 r2) z = ends ic r1 z @ ends ic r2 z"
| "ends ic (Star r) z =
     concat (map (\<lambda>z'. if length (snd z') < length (snd z) then ends ic (Star r) z' else [])
                 (ends ic r z)) @ [z]"
| "ends ic Bol z = (if fst z = [] then [z] else [])"
| "ends ic Eol z = (if snd z = [] \<or> snd z = [CHR 0x0A] then [z] else [])"
| "ends ic WordB z = (if at_word_boundary z then [z] else [])"

definition first_match :: "bool \<Rightarrow> regex \<Rightarrow> cursor \<Rightarrow> cursor option" where
  "first_match ic r z = (case ends ic r z of [] \<Rightarrow> None | z' # _ \<Rightarrow> Some z')"

subsection \<open>Derived regex forms\<close>

text \<open>
  \<open>Opt r\<close> is \<^verbatim>\<open>r?\<close>, \<open>Plus r\<close> is \<^verbatim>\<open>r+\<close>, \<open>Times n r\<close> is \<^verbatim>\<open>r{n}\<close>, \<open>Between m n r\<close> is
  \<^verbatim>\<open>r{m,n}\<close> and \<open>AtLeast m r\<close> is \<^verbatim>\<open>r{m,}\<close>, all greedy: the longer match is tried
  first. \<open>Str s\<close> is the literal text \<open>s\<close> and \<open>Seqs\<close> a concatenation.
\<close>

definition Opt :: "regex \<Rightarrow> regex" where
  "Opt r = Alt r Eps"

definition Plus :: "regex \<Rightarrow> regex" where
  "Plus r = Seq r (Star r)"

primrec Times :: "nat \<Rightarrow> regex \<Rightarrow> regex" where
  "Times 0 r = Eps"
| "Times (Suc n) r = Seq r (Times n r)"

primrec AtMost :: "nat \<Rightarrow> regex \<Rightarrow> regex" where
  "AtMost 0 r = Eps"
| "AtMost (Suc n) r = Opt (Seq r (AtMost n r))"

definition Between :: "nat \<Rightarrow> nat \<Rightarrow> regex \<Rightarrow> regex" where
  "Between m n r = Seq (Times m r) (AtMost (n - m) r)"

definition AtLeast :: "nat \<Rightarrow> regex \<Rightarrow> regex" where
  "AtLeast m r = Seq (Times m r) (Star r)"

primrec Str :: "string \<Rightarrow> regex" where
  "Str [] = Eps"
| "Str (c # cs) = Seq (Atom (Lit c)) (Str cs)"

primrec Seqs :: "regex list \<Rightarrow> regex" where
  "Seqs [] = Eps"
| "Seqs (r # rs) = Seq r (Seqs rs)"

subsection \<open>re.search, re.match, re.sub, re.findall, re.split\<close>

text \<open>
  \<open>re_search\<close> tries every start position from the left. \<open>re_match\<close> tries the start
  of the string only and returns the matched text and the text after it. \<open>re_sub\<close>,
  \<open>re_findall\<close> and \<open>re_split\<close> scan from the left, take the match reported at the
  first position that has one and go on after it. Every pattern that the source passes
  to these three consumes at least one character whenever it matches (\<open>nullable\<close>
  below); the branches for a match of length zero only make the functions total.
\<close>

fun search_from :: "bool \<Rightarrow> regex \<Rightarrow> string \<Rightarrow> string \<Rightarrow> bool" where
  "search_from ic r b [] = (first_match ic r (b, []) \<noteq> None)"
| "search_from ic r b (c # cs) =
     (if first_match ic r (b, c # cs) \<noteq> None then True else search_from ic r (c # b) cs)"

definition re_search :: "bool \<Rightarrow> regex \<Rightarrow> string \<Rightarrow> bool" where
  "re_search ic r s = search_from ic r [] s"

definition re_match :: "bool \<Rightarrow> regex \<Rightarrow> string \<Rightarrow> (string \<times> string) option" where
  "re_match ic r s =
     (case first_match ic r ([], s) of None \<Rightarrow> None
      | Some (b, a) \<Rightarrow> Some (rev b, a))"

fun sub_from :: "bool \<Rightarrow> regex \<Rightarrow> string \<Rightarrow> string \<Rightarrow> string \<Rightarrow> string" where
  "sub_from ic r repl b a =
     (case first_match ic r (b, a) of
        Some (b', a') \<Rightarrow>
          if length a' < length a then repl @ sub_from ic r repl b' a'
          else (case a of [] \<Rightarrow> repl
                | c # cs \<Rightarrow> repl @ c # sub_from ic r repl (c # b) cs)
      | None \<Rightarrow>
          (case a of [] \<Rightarrow> []
           | c # cs \<Rightarrow> c # sub_from ic r repl (c # b) cs))"

definition re_sub :: "bool \<Rightarrow> regex \<Rightarrow> string \<Rightarrow> string \<Rightarrow> string" where
  "re_sub ic r repl s = sub_from ic r repl [] s"

fun findall_from :: "bool \<Rightarrow> regex \<Rightarrow> string \<Rightarrow> string \<Rightarrow> string list" where
  "findall_from ic r b a =
     (case first_match ic r (b, a) of
        Some (b', a') \<Rightarrow>
          if length a' < length a
          then take (length a - length a') a # findall_from ic r b' a'
          else (case a of [] \<Rightarrow> [[]]
                | c # cs \<Rightarrow> [] # findall_from ic r (c # b) cs)
      | None \<Rightarrow>
          (case a of [] \<Rightarrow> []
           | c # cs \<Rightarrow> findall_from ic r (c # b) cs))"

definition re_findall :: "bool \<Rightarrow> regex \<Rightarrow> string \<Rightarrow> string list" where
  "re_findall ic r s = findall_from ic r [] s"

fun split_from :: "bool \<Rightarrow> regex \<Rightarrow> string \<Rightarrow> string \<Rightarrow> string \<Rightarrow> string list" where
  "split_from ic r piece b a =
     (case first_match ic r (b, a) of
        Some (b', a') \<Rightarrow>
          if length a' < length a then rev piece # split_from ic r [] b' a'
          else (case a of [] \<Rightarrow> [rev piece]
                | c # cs \<Rightarrow> split_from ic r (c # piece) (c # b) cs)
      | None \<Rightarrow>
          (case a of [] \<Rightarrow> [rev piece]
           | c # cs \<Rightarrow> split_from ic r (c # piece) (c # b) cs))"

definition re_split :: "bool \<Rightarrow> regex \<Rightarrow> string \<Rightarrow> string list" where
  "re_split ic r s = split_from ic r [] [] s"

subsection \<open>str methods\<close>

text \<open>
  \<open>strip\<close> is \<^verbatim>\<open>s.strip()\<close>, \<open>strip_chars cs\<close> is \<^verbatim>\<open>s.strip(cs)\<close>, \<open>split_ws\<close> is
  \<^verbatim>\<open>s.split()\<close> (the non-empty pieces between whitespace characters), \<open>join sep\<close> is
  \<^verbatim>\<open>sep.join(ws)\<close>, \<open>find_sub n h\<close> is \<^verbatim>\<open>h.find(n)\<close> with \<open>None\<close> for -1, and
  \<open>remove_char c\<close> is \<^verbatim>\<open>s.replace(c, '')\<close> for a single character.
\<close>

definition strip :: "string \<Rightarrow> string" where
  "strip s = rev (dropWhile is_space (rev (dropWhile is_space s)))"

definition strip_chars :: "string \<Rightarrow> string \<Rightarrow> string" where
  "strip_chars cs s =
     rev (dropWhile (\<lambda>c. c \<in> set cs) (rev (dropWhile (\<lambda>c. c \<in> set cs) s)))"

primrec ws_fields :: "string \<Rightarrow> string list" where
  "ws_fields [] = [[]]"
| "ws_fields (c # cs) =
     (if is_space c then [] # ws_fields cs
      else (case ws_fields cs of [] \<Rightarrow> [[c]] | w # ws \<Rightarrow> (c # w) # ws))"

definition split_ws :: "string \<Rightarrow> string list" where
  "split_ws s = filter (\<lambda>w. w \<noteq> []) (ws_fields s)"

fun join :: "string \<Rightarrow> string list \<Rightarrow> string" where
  "join sep [] = []"
| "join sep [w] = w"
| "join sep (w # ws) = w @ sep @ join sep ws"

primrec find_sub :: "string \<Rightarrow> string \<Rightarrow> nat option" where
  "find_sub n [] = (if n = [] then Some 0 else None)"
| "find_sub n (c # cs) =
     (if prefix n (c # cs) then Some 0 else map_option Suc (find_sub n cs))"

definition remove_char :: "char \<Rightarrow> string \<Rightarrow> string" where
  "remove_char c s = filter (\<lambda>x. x \<noteq> c) s"

section \<open>Transaction\<close>

text \<open>
  The only operations of the core that can raise on a string are the subscripts
  \<^verbatim>\<open>chunk[0]\<close> and \<^verbatim>\<open>scored_chunks[0]\<close>; they are modelled with an \<open>IndexError\<close> branch.
\<close>

datatype py_error = IndexError

record transaction =
  date :: string
  description :: string
  currency :: string
  amount :: string
  fees :: string
  total :: string

definition Transaction :: "string \<Rightarrow> transaction" where
  "Transaction d =
     \<lparr>date = d, description = [], currency = ''USD'',
      amount = ''0.00'', fees = ''0.00'', total = ''0.00''\<rparr>"

text \<open>The property \<^verbatim>\<open>clean_payee\<close> is \<open>extract_payee (description t)\<close>, defined below.\<close>

section \<open>PayeeExtractor\<close>

definition NOISE_KEYWORDS :: "string list" where
  "NOISE_KEYWORDS =
     [''paypal'', ''balance'', ''usd'', ''id:'', ''ref id:'', ''individual id:'',
      ''general'', ''mastercard'', ''debit'', ''preapproved payment'',
      ''bill user payment'']"

definition PAYEE_PREFIXES :: "string list" where
  "PAYEE_PREFIXES =
     [''Transaction:'',
      ''Direct Deposit:'',
      ''PreApproved Payment Bill User Payment:'',
      ''Payment to:'',
      ''Payment from:'']"

definition CLEAN_AMOUNT :: regex where
  "CLEAN_AMOUNT =
     Seqs [Opt (Atom (OneOf ''-+'')), Opt (Atom (Lit CHR ''$'')),
           Between 1 3 (Atom Digit),
           Star (Seq (Atom (Lit CHR '','')) (Times 3 (Atom Digit))),
           Atom (Lit CHR ''.''), Times 2 (Atom Digit)]"

definition CLEAN_ID :: regex where
  "CLEAN_ID =
     Seqs [WordB,
           Alt (Str ''ID'') (Alt (Str ''Ref ID'') (Str ''Individual ID'')),
           Atom (Lit CHR '':''), Star (Atom Space), Plus (Atom NonSpace)]"

definition STRIP_CHARS :: string where
  "STRIP_CHARS = [CHR '' '', CHR ''|'', CHR '','', CHR ''.'', CHR ''-'', bullet]"

definition clean_text :: "string \<Rightarrow> string" where
  "clean_text text =
     (let cleaned = re_sub False CLEAN_AMOUNT [] text;
          cleaned = re_sub True CLEAN_ID [] cleaned;
          cleaned = strip_chars STRIP_CHARS cleaned;
          words = split_ws (lower cleaned)
      in if list_all (\<lambda>word. word \<in> set NOISE_KEYWORDS) (filter (\<lambda>word. word \<noteq> []) words)
         then []
         else
           (let filtered_words =
                  filter (\<lambda>w. lower w \<notin> set NOISE_KEYWORDS) (split_ws cleaned);
                result = strip (join '' '' filtered_words)
            in re_sub False (Plus (Atom Space)) '' '' result))"

definition location_patterns :: "regex list" where
  "location_patterns =
     [Seqs [WordB, Atom (OneOf ascii_uppercase), Plus (Atom (OneOf ascii_lowercase)),
            Atom (Lit CHR '',''), Star (Atom Space),
            Times 2 (Atom (OneOf ascii_uppercase)), WordB],
      Seqs [WordB, Times 2 (Atom (OneOf ascii_uppercase)), Star (Atom Space),
            Times 5 (Atom Digit), WordB]]"

definition merchant_patterns :: "regex list" where
  "merchant_patterns =
     [Seqs [WordB, Plus (Atom (OneOf ascii_uppercase)), Plus (Atom Space),
            Plus (Atom (OneOf ascii_uppercase))],
      Seqs [WordB, Str ''I-n'', Plus (Atom Digit), WordB],
      Seqs [WordB, Atom (Lit CHR ''#''), Plus (Atom Digit), WordB]]"

definition score_tail :: "string \<Rightarrow> int \<Rightarrow> py_error + int" where
  "score_tail chunk score0 =
     (case chunk of
        [] \<Rightarrow> Inl IndexError
      | c0 # _ \<Rightarrow>
          (let score = (if is_upper c0 then score0 + 3 else score0);
               score = (if length (filter is_upper chunk) \<ge> 3 then score + 4 else score);
               score = (if list_ex (\<lambda>p. re_search False p chunk) location_patterns
                        then score + 6 else score);
               score = (if list_ex (\<lambda>p. re_search False p chunk) merchant_patterns
                        then score + 3 else score);
               noise_count = length (filter (\<lambda>word. word \<in> set NOISE_KEYWORDS)
                                            (split_ws (lower chunk)))
           in Inr (score - int noise_count * 2)))"

definition score_chunk :: "string \<Rightarrow> py_error + int" where
  "score_chunk chunk =
     (if length chunk > 10 then score_tail chunk 5
      else if length chunk > 5 then score_tail chunk 2
      else if length chunk < 3 then Inr 0
      else score_tail chunk 0)"

definition CHUNK_SPLIT :: regex where
  "CHUNK_SPLIT = Alt (AtLeast 2 (Atom Space)) (Atom (OneOf [CHR ''|'', bullet]))"

fun score_chunks :: "string list \<Rightarrow> py_error + (int \<times> string) list" where
  "score_chunks [] = Inr []"
| "score_chunks (chunk # rest) =
     (let chunk' = clean_text chunk
      in if chunk' = [] then score_chunks rest
         else (case score_chunk chunk' of
                 Inl e \<Rightarrow> Inl e
               | Inr score \<Rightarrow>
                   (case score_chunks rest of
                      Inl e \<Rightarrow> Inl e
                    | Inr scored \<Rightarrow>
                        Inr (if score > 0 then (score, chunk') # scored else scored))))"

text \<open>
  \<^verbatim>\<open>list.sort(reverse=True, key=...)\<close> keeps elements with equal keys in their original
  order: the list is reversed, sorted by a stable ascending sort and reversed again.
\<close>

definition sort_reverse :: "('a \<Rightarrow> int) \<Rightarrow> 'a list \<Rightarrow> 'a list" where
  "sort_reverse key xs = rev (sort_key key (rev xs))"

definition extract_intelligent :: "string \<Rightarrow> py_error + string" where
  "extract_intelligent desc =
     (case score_chunks (re_split False CHUNK_SPLIT desc) of
        Inl e \<Rightarrow> Inl e
      | Inr scored_chunks \<Rightarrow>
          if scored_chunks \<noteq> [] then
            (case sort_reverse fst scored_chunks of
               [] \<Rightarrow> Inl IndexError
             | best # _ \<Rightarrow> Inr (snd best))
          else
            (let fallback = take 80 (clean_text desc)
             in Inr (if fallback \<noteq> [] then fallback else ''Unknown'')))"

fun extract_after_prefix_loop :: "string list \<Rightarrow> string \<Rightarrow> string option" where
  "extract_after_prefix_loop [] text = None"
| "extract_after_prefix_loop (p # rest) text =
     (case find_sub (lower p) (lower text) of
        None \<Rightarrow> extract_after_prefix_loop rest text
      | Some idx \<Rightarrow>
          (let after_prefix = strip (drop (idx + length p) text);
               cleaned = clean_text after_prefix
           in if cleaned \<noteq> [] then Some cleaned
              else extract_after_prefix_loop rest text))"

definition extract_after_prefix :: "string \<Rightarrow> string option" where
  "extract_after_prefix text = extract_after_prefix_loop PAYEE_PREFIXES text"

definition extract_payee :: "string \<Rightarrow> py_error + string" where
  "extract_payee desc =
     (if desc = [] \<or> strip desc = [] then Inr ''Unknown''
      else (case extract_after_prefix desc of
              Some payee \<Rightarrow> Inr payee
            | None \<Rightarrow> extract_intelligent desc))"

definition clean_payee :: "transaction \<Rightarrow> py_error + string" where
  "clean_payee t = extract_payee (description t)"

section \<open>PayPalPDFParser\<close>

text \<open>
  The loop of \<^verbatim>\<open>parse\<close> keeps three variables across lines and pages; they are the
  fields of \<open>parser_state\<close>. \<open>process_line\<close> is the body of the inner loop,
  \<open>start_transaction\<close> its branch for a line that begins with a date,
  \<open>continue_transaction\<close> its branch for another line while a transaction is open, and
  \<open>save_current\<close> the list after the open transaction, if any, has been given its
  description and appended. \<open>parse_lines\<close> runs the loop over a list of lines, \<open>parse\<close>
  over the pages' texts (\<open>None\<close> for a page without text). Reading the PDF, and the
  \<^verbatim>\<open>RuntimeError\<close> that wraps its failures, are outside the model.
\<close>

definition DATE_PATTERN :: regex where
  "DATE_PATTERN =
     Seqs [Bol, Between 1 2 (Atom Digit), Atom (Lit CHR ''/''),
           Between 1 2 (Atom Digit), Atom (Lit CHR ''/''), Times 4 (Atom Digit)]"

definition AMOUNT_PATTERN :: regex where
  "AMOUNT_PATTERN =
     Seqs [Opt (Atom (OneOf ''-+'')), Between 1 3 (Atom Digit),
           Star (Seq (Atom (Lit CHR '','')) (Times 3 (Atom Digit))),
           Atom (Lit CHR ''.''), Times 2 (Atom Digit)]"

definition JUNK_PATTERNS :: "regex list" where
  "JUNK_PATTERNS =
     [Seq (Str ''PayPal Balance'') (Star (Atom Dot)),
      Seq (Str ''ID:'') (Star (Atom Dot)),
      Seq (Str ''Individual ID:'') (Star (Atom Dot)),
      Seq (Str ''Ref ID:'') (Star (Atom Dot)),
      Seqs [Bol, Str ''General PayPal Debit Mastercard'', Star (Atom Space), Eol],
      Seqs [Bol, Str ''PreApproved Payment Bill User Payment:'', Star (Atom Space), Eol],
      Seqs [Bol, Str ''General'', Star (Atom Space), Eol],
      Seqs [Bol, Str ''Transaction'', Opt (Atom (Lit CHR '':'')), Star (Atom Space), Eol],
      Seqs [Bol, Str ''Direct Deposit'', Opt (Atom (Lit CHR '':'')), Star (Atom Space), Eol],
      Seqs [Bol, Atom (OneOf [CHR ''-'', bullet]), Star (Atom Space), Eol],
      Seqs [Bol, Star (Atom Space), Eol]]"

definition is_junk_line :: "string \<Rightarrow> bool" where
  "is_junk_line line = list_ex (\<lambda>pattern. re_search True pattern line) JUNK_PATTERNS"

definition clean_description :: "string list \<Rightarrow> string" where
  "clean_description parts =
     re_sub False (Plus (Atom Space)) '' '' (strip (join '' '' parts))"

record parser_state =
  transactions :: "transaction list"
  current_transaction :: "transaction option"
  desc_parts :: "string list"

definition initial_state :: parser_state where
  "initial_state = \<lparr>transactions = [], current_transaction = None, desc_parts = []\<rparr>"

definition save_current :: "parser_state \<Rightarrow> transaction list" where
  "save_current st =
     (case current_transaction st of
        None \<Rightarrow> transactions st
      | Some t \<Rightarrow>
          transactions st @ [t\<lparr>description := clean_description (desc_parts st)\<rparr>])"

definition start_transaction :: "string \<Rightarrow> string \<Rightarrow> parser_state \<Rightarrow> parser_state" where
  "start_transaction d after st =
     (let t = Transaction d;
          rest = strip after;
          amounts = re_findall False AMOUNT_PATTERN rest;
          t = (if amounts \<noteq> []
               then (let a = remove_char CHR '','' (last amounts)
                     in t\<lparr>amount := a, total := a\<rparr>)
               else t)
      in \<lparr>transactions = save_current st,
          current_transaction = Some t,
          desc_parts = (if rest \<noteq> [] then [rest] else [])\<rparr>)"

definition continue_transaction :: "string \<Rightarrow> transaction \<Rightarrow> parser_state \<Rightarrow> parser_state" where
  "continue_transaction line t st =
     (let amounts = re_findall False AMOUNT_PATTERN line;
          t = (if amounts \<noteq> [] \<and> amount t = []
               then (let a = remove_char CHR '','' (last amounts)
                     in t\<lparr>amount := a, total := a\<rparr>)
               else t);
          clean = strip (re_sub False AMOUNT_PATTERN [] line);
          clean = re_sub False
                    (Seqs [Bol, Atom (OneOf [CHR ''-'', bullet]), Star (Atom Space)]) [] clean
      in st\<lparr>current_transaction := Some t,
            desc_parts := (if clean \<noteq> [] \<and> length clean > 2
                           then desc_parts st @ [clean] else desc_parts st)\<rparr>)"

definition process_line :: "parser_state \<Rightarrow> string \<Rightarrow> parser_state" where
  "process_line st line =
     (if is_junk_line line then st
      else (case re_match False DATE_PATTERN line of
              Some (d, after) \<Rightarrow> start_transaction d after st
            | None \<Rightarrow>
                (case current_transaction st of
                   Some t \<Rightarrow> continue_transaction line t st
                 | None \<Rightarrow> st)))"

definition parse_lines :: "string list \<Rightarrow> transaction list" where
  "parse_lines lines = save_current (foldl process_line initial_state lines)"

text \<open>\<^verbatim>\<open>str.splitlines\<close> over the line boundaries that the modelled characters include.\<close>

definition is_linebreak :: "char \<Rightarrow> bool" where
  "is_linebreak c =
     (c \<in> set [CHR 0x0A, CHR 0x0B, CHR 0x0C, CHR 0x0D, CHR 0x1C, CHR 0x1D, CHR 0x1E])"

fun splitlines_from :: "string \<Rightarrow> string \<Rightarrow> string list" where
  "splitlines_from cur [] = (if cur = [] then [] else [rev cur])"
| "splitlines_from cur [c] = (if is_linebreak c then [rev cur] else [rev (c # cur)])"
| "splitlines_from cur (c # d # ds) =
     (if c = CHR 0x0D \<and> d = CHR 0x0A then rev cur # splitlines_from [] ds
      else if is_linebreak c then rev cur # splitlines_from [] (d # ds)
      else splitlines_from (c # cur) (d # ds))"

definition splitlines :: "string \<Rightarrow> string list" where
  "splitlines text = splitlines_from [] text"

definition page_lines :: "string option \<Rightarrow> string list" where
  "page_lines page =
     (let text = (case page of None \<Rightarrow> [] | Some t \<Rightarrow> t)
      in map strip (filter (\<lambda>line. strip line \<noteq> []) (splitlines text)))"

definition parse :: "string option list \<Rightarrow> transaction list" where
  "parse pages =
     save_current
       (foldl (\<lambda>st page. foldl process_line st (page_lines page)) initial_state pages)"

section \<open>Predicates used in the statements\<close>

definition amounts_consistent :: "transaction \<Rightarrow> bool" where
  "amounts_consistent t = (total t = amount t \<and> fees t = ''0.00'')"

definition state_consistent :: "parser_state \<Rightarrow> bool" where
  "state_consistent st =
     (list_all amounts_consistent (transactions st) \<and>
      (case current_transaction st of None \<Rightarrow> True | Some t \<Rightarrow> amounts_consistent t))"

definition is_anchor :: "string \<Rightarrow> bool" where
  "is_anchor line = (\<not> is_junk_line line \<and> re_match False DATE_PATTERN line \<noteq> None)"

definition anchor_date :: "string \<Rightarrow> string" where
  "anchor_date line =
     (case re_match False DATE_PATTERN line of None \<Rightarrow> [] | Some (d, after) \<Rightarrow> d)"

definition prepend :: "transaction list \<Rightarrow> parser_state \<Rightarrow> parser_state" where
  "prepend done st = st\<lparr>transactions := done @ transactions st\<rparr>"

definition open_since :: "string \<Rightarrow> parser_state \<Rightarrow> bool" where
  "open_since d st =
     (transactions st = [] \<and>
      (case current_transaction st of None \<Rightarrow> False | Some t \<Rightarrow> date t = d))"

definition first_from :: "string \<Rightarrow> parser_state \<Rightarrow> bool" where
  "first_from d st =
     (case transactions st of
        [] \<Rightarrow> (case current_transaction st of None \<Rightarrow> False | Some t \<Rightarrow> date t = d)
      | t # ts \<Rightarrow> date t = d \<and> current_transaction st \<noteq> None)"

text \<open>
  The cleaned text after the first occurrence of a prefix, empty when the prefix does
  not occur: the body of the loop of \<^verbatim>\<open>_extract_after_prefix\<close> for one prefix.
\<close>

definition prefix_remainder :: "string \<Rightarrow> string \<Rightarrow> string" where
  "prefix_remainder p text =
     (case find_sub (lower p) (lower text) of
        None \<Rightarrow> []
      | Some idx \<Rightarrow> clean_text (strip (drop (idx + length p) text)))"

text \<open>
  A regex is \<open>nullable\<close> when it can match the empty string. The patterns that the source
  passes to \<^verbatim>\<open>sub\<close>, \<^verbatim>\<open>findall\<close> and \<^verbatim>\<open>split\<close> are not.
\<close>

primrec nullable :: "regex \<Rightarrow> bool" where
  "nullable Eps = True"
| "nullable (Atom a) = False"
| "nullable (Seq r1 r2) = (nullable r1 \<and> nullable r2)"
| "nullable (Alt r1 r2) = (nullable r1 \<or> nullable r2)"
| "nullable (Star r) = True"
| "nullable Bol = True"
| "nullable Eol = True"
| "nullable WordB = True"

section \<open>The matcher and the loop over pages\<close>

text \<open>
  A match never ends before it starts, and a match of a pattern that is not nullable
  consumes at least one character. This holds for every pattern that the source passes
  to \<^verbatim>\<open>sub\<close>, \<^verbatim>\<open>findall\<close> and \<^verbatim>\<open>split\<close>.
\<close>

lemma ends_Star_unfold:
  "z' \<in> set (ends ic (Star r) z) \<Longrightarrow>
   z' = z \<or> (\<exists>y\<in>set (ends ic r z). length (snd y) < length (snd z)
                  \<and> z' \<in> set (ends ic (Star r) y))"
  by (subst (asm) ends.simps(5)) (auto simp del: ends.simps(5) split: if_split_asm)

lemma ends_not_longer:
  "z' \<in> set (ends ic r z) \<Longrightarrow> length (snd z') \<le> length (snd z)"
proof (induction ic r z arbitrary: z' rule: ends.induct)
  case (1 ic z)
  then show ?case by simp
next
  case (2 ic a z)
  then show ?case by (cases z) (auto split: list.splits if_splits)
next
  case (3 ic r1 r2 z)
  from "3.prems" obtain y where y: "y \<in> set (ends ic r1 z)" and z': "z' \<in> set (ends ic r2 y)"
    by auto
  from "3.IH"(1) [OF y] "3.IH"(2) [OF y z'] show ?case by simp
next
  case (4 ic r1 r2 z)
  from "4.prems" have "z' \<in> set (ends ic r1 z) \<or> z' \<in> set (ends ic r2 z)" by simp
  then show ?case using "4.IH"(1) [of z'] "4.IH"(2) [of z'] by blast
next
  case (5 ic r z)
  from ends_Star_unfold [OF "5.prems"] show ?case
  proof
    assume "z' = z"
    then show ?thesis by simp
  next
    assume "\<exists>y\<in>set (ends ic r z). length (snd y) < length (snd z)
                  \<and> z' \<in> set (ends ic (Star r) y)"
    then obtain y where y: "y \<in> set (ends ic r z)" "length (snd y) < length (snd z)"
        "z' \<in> set (ends ic (Star r) y)"
      by blast
    from "5.IH"(2) [OF y(1) y(2) y(3)] y(2) show ?thesis by simp
  qed
next
  case (6 ic z)
  then show ?case by (simp split: if_splits)
next
  case (7 ic z)
  then show ?case by (simp split: if_splits)
next
  case (8 ic z)
  then show ?case by (simp split: if_splits)
qed

lemma ends_consume:
  "\<not> nullable r \<Longrightarrow> z' \<in> set (ends ic r z) \<Longrightarrow> length (snd z') < length (snd z)"
proof (induction r arbitrary: z z')
  case Eps
  then show ?case by simp
next
  case (Atom a)
  then show ?case by (cases z) (auto split: list.splits if_splits)
next
  case (Seq r1 r2)
  from Seq.prems(2) obtain y where y: "y \<in> set (ends ic r1 z)" and z': "z' \<in> set (ends ic r2 y)"
    by auto
  from Seq.prems(1) have "\<not> nullable r1 \<or> \<not> nullable r2" by simp
  then show ?case
  proof
    assume "\<not> nullable r1"
    from Seq.IH(1) [OF this y] ends_not_longer [OF z'] show ?thesis by simp
  next
    assume "\<not> nullable r2"
    from Seq.IH(2) [OF this z'] ends_not_longer [OF y] show ?thesis by simp
  qed
next
  case (Alt r1 r2)
  from Alt.prems have n: "\<not> nullable r1" "\<not> nullable r2"
    and "z' \<in> set (ends ic r1 z) \<or> z' \<in> set (ends ic r2 z)" by simp_all
  then show ?case using Alt.IH(1) [OF n(1), of z' z] Alt.IH(2) [OF n(2), of z' z] by blast
next
  case (Star r)
  from Star.prems(1) show ?case by simp
next
  case Bol
  from Bol(1) show ?case by simp
next
  case Eol
  from Eol(1) show ?case by simp
next
  case WordB
  from WordB(1) show ?case by simp
qed

lemma first_match_consumes:
  "\<not> nullable r \<Longrightarrow> first_match ic r (b, a) = Some (b', a') \<Longrightarrow> length a' < length a"
  using ends_consume [of r "(b', a')" ic "(b, a)"]
  by (auto simp: first_match_def split: list.splits)

lemma source_patterns_not_nullable:
  "\<not> nullable AMOUNT_PATTERN" "\<not> nullable CLEAN_AMOUNT" "\<not> nullable CLEAN_ID"
  "\<not> nullable (Plus (Atom Space))" "\<not> nullable CHUNK_SPLIT"
  "\<not> nullable (Seqs [Bol, Atom (OneOf [CHR ''-'', bullet]), Star (Atom Space)])"
  by (simp_all add: AMOUNT_PATTERN_def CLEAN_AMOUNT_def CLEAN_ID_def CHUNK_SPLIT_def
        Plus_def Opt_def Between_def AtLeast_def eval_nat_numeral)

lemma parse_eq_parse_lines: "parse pages = parse_lines (concat (map page_lines pages))"
proof -
  have "foldl (\<lambda>st page. foldl process_line st (page_lines page)) st pages
        = foldl process_line st (concat (map page_lines pages))" for st
    by (induction pages arbitrary: st) simp_all
  then show ?thesis by (simp add: parse_def parse_lines_def)
qed

section \<open>Evaluating the scoring heuristic\<close>

lemma score_chunk_table:
  "score_chunk chunk =
     Inr (if length chunk < 3 then 0
          else (if length chunk \<ge> 11 then 5 else if length chunk \<ge> 6 then 2 else 0)
             + (if is_upper (hd chunk) then 3 else 0)
             + (if length (filter is_upper chunk) \<ge> 3 then 4 else 0)
             + (if list_ex (\<lambda>p. re_search False p chunk) location_patterns then 6 else 0)
             + (if list_ex (\<lambda>p. re_search False p chunk) merchant_patterns then 3 else 0)
             - 2 * int (length (filter (\<lambda>word. word \<in> set NOISE_KEYWORDS)
                                       (split_ws (lower chunk)))))"
  by (cases chunk) (auto simp: score_chunk_def score_tail_def Let_def)

text \<open>
  C8. The scoring function is the sum of the table (\<open>score_chunk_table\<close>), with the
  patterns as the source writes them. The third merchant pattern is \<^verbatim>\<open>\b#\d+\b\<close>, which
  the source comments as "Reference numbers": a word boundary before \<^verbatim>\<open>#\<close> exists only
  when a word character stands directly before it, so the chunk \<^verbatim>\<open>Ref #12345\<close>, which
  holds a "#number" reference, gets no +3 (its score is 2 + 3 = 5, not 8), while
  \<^verbatim>\<open>Ref#12345\<close> gets it.
\<close>

theorem C8_hash_reference_not_scored:
  "score_chunk ''Ref #12345'' = Inr 5 \<and> score_chunk ''Ref#12345'' = Inr 8
   \<and> \<not> re_search False (Seqs [WordB, Atom (Lit CHR ''#''), Plus (Atom Digit), WordB])
            ''Ref #12345''"
  by code_simp

section \<open>The amount of a transaction\<close>

lemma continue_transaction_keeps_amount:
  "amount t \<noteq> [] \<Longrightarrow> current_transaction (continue_transaction line t st) = Some t"
  by (simp add: continue_transaction_def Let_def)

text \<open>
  C1. On a continuation line the source assigns the amount under the guard
  \<^verbatim>\<open>amounts and not current_transaction.amount\<close>. A new transaction's amount is the
  non-empty string \<^verbatim>\<open>0.00\<close>, so the guard never holds
  (\<open>continue_transaction_keeps_amount\<close>) and the amount is never taken from a
  continuation line: scenario B ends with the amount \<^verbatim>\<open>0.00\<close>, not \<^verbatim>\<open>1500.00\<close>. (The
  only amount token that the pattern finds in \<^verbatim>\<open>1500.00\<close> is \<^verbatim>\<open>500.00\<close>: the integer part
  is one to three digits, then groups of a comma and three digits.)
\<close>

theorem C1_scenario_B_amount_stays_default:
  "parse_lines [''12/03/2025'', ''Direct Deposit: ACME PAYROLL SERVICES LLC'', ''1500.00'']
   = [\<lparr>date = ''12/03/2025'', description = ''Direct Deposit: ACME PAYROLL SERVICES LLC'',
       currency = ''USD'', amount = ''0.00'', fees = ''0.00'', total = ''0.00''\<rparr>]
   \<and> re_findall False AMOUNT_PATTERN ''1500.00'' = [''500.00'']"
  by code_simp

text \<open>
  C5. The line \<^verbatim>\<open>Fee 2.50 Total 19.99\<close> holds the tokens \<^verbatim>\<open>2.50\<close> and \<^verbatim>\<open>19.99\<close>. As the
  remainder of an anchor line its rightmost token becomes the amount; as a continuation
  line of a transaction whose amount is not yet discovered it leaves the amount at
  \<^verbatim>\<open>0.00\<close>.
\<close>

theorem C5_continuation_line_amount_ignored:
  "map amount (parse_lines [''12/01/2025'', ''Fee 2.50 Total 19.99'']) = [''0.00'']
   \<and> map amount (parse_lines [''12/01/2025 Fee 2.50 Total 19.99'']) = [''19.99'']
   \<and> re_findall False AMOUNT_PATTERN ''Fee 2.50 Total 19.99'' = [''2.50'', ''19.99'']"
  by code_simp

section \<open>The total follows the amount\<close>

lemma save_current_consistent:
  "state_consistent st \<Longrightarrow> list_all amounts_consistent (save_current st)"
  by (auto simp: state_consistent_def save_current_def amounts_consistent_def
           split: option.splits)

lemma start_transaction_consistent:
  "state_consistent st \<Longrightarrow> state_consistent (start_transaction d after st)"
  using save_current_consistent [of st]
  by (simp add: state_consistent_def start_transaction_def Let_def Transaction_def
        amounts_consistent_def)

lemma continue_transaction_consistent:
  "state_consistent st \<Longrightarrow> amounts_consistent t \<Longrightarrow>
   state_consistent (continue_transaction line t st)"
  by (simp add: state_consistent_def continue_transaction_def Let_def amounts_consistent_def)

lemma process_line_consistent:
  "state_consistent st \<Longrightarrow> state_consistent (process_line st line)"
proof -
  assume st: "state_consistent st"
  show ?thesis
  proof (cases "is_junk_line line")
    case True
    with st show ?thesis by (simp add: process_line_def)
  next
    case False
    show ?thesis
    proof (cases "re_match False DATE_PATTERN line")
      case (Some m)
      with False st show ?thesis
        by (cases m) (simp add: process_line_def start_transaction_consistent)
    next
      case None
      show ?thesis
      proof (cases "current_transaction st")
        case (Some t)
        with st have "amounts_consistent t" by (simp add: state_consistent_def)
        with False None Some st show ?thesis
          by (simp add: process_line_def continue_transaction_consistent)
      next
        case cn: None
        with False None st show ?thesis by (simp add: process_line_def)
      qed
    qed
  qed
qed

lemma foldl_process_line_consistent:
  "state_consistent st \<Longrightarrow> state_consistent (foldl process_line st lines)"
  by (induction lines arbitrary: st) (simp_all add: process_line_consistent)

lemma initial_state_consistent: "state_consistent initial_state"
  by (simp add: state_consistent_def initial_state_def)

text \<open>
  C9. Every transaction that the parser returns has its total equal to its amount and
  its fees at the default \<^verbatim>\<open>0.00\<close>; a new transaction starts with amount and total
  \<^verbatim>\<open>0.00\<close>, and both branches that assign the amount assign the total the same value.
\<close>

theorem C9_total_equals_amount:
  "t \<in> set (parse_lines lines) \<Longrightarrow>
   total t = amount t \<and> fees t = ''0.00''
   \<and> amount (Transaction d) = ''0.00'' \<and> total (Transaction d) = ''0.00''
   \<and> fees (Transaction d) = ''0.00''"
proof -
  assume mem: "t \<in> set (parse_lines lines)"
  have "list_all amounts_consistent (parse_lines lines)"
    unfolding parse_lines_def
    by (rule save_current_consistent)
       (rule foldl_process_line_consistent [OF initial_state_consistent])
  with mem have "amounts_consistent t" by (simp add: list_all_iff)
  then show ?thesis by (simp add: amounts_consistent_def Transaction_def)
qed

theorem C9_total_equals_amount_witness:
  "parse_lines [''12/01/2025 Payment to: Island Vibes Lounge -25.00'', ''ID: 8AB123'']
     = [\<lparr>date = ''12/01/2025'', description = ''Payment to: Island Vibes Lounge -25.00'',
         currency = ''USD'', amount = ''-25.00'', fees = ''0.00'', total = ''-25.00''\<rparr>]
   \<and> total \<lparr>date = ''12/01/2025'', description = ''Payment to: Island Vibes Lounge -25.00'',
         currency = ''USD'', amount = ''-25.00'', fees = ''0.00'', total = ''-25.00''\<rparr>
       = ''-25.00''"
proof -
  let ?L = "[''12/01/2025 Payment to: Island Vibes Lounge -25.00'', ''ID: 8AB123'']"
  let ?t = "\<lparr>date = ''12/01/2025'', description = ''Payment to: Island Vibes Lounge -25.00'',
         currency = ''USD'', amount = ''-25.00'', fees = ''0.00'', total = ''-25.00''\<rparr>"
  have run: "parse_lines ?L = [?t]" by code_simp
  then have "?t \<in> set (parse_lines ?L)" by simp
  from C9_total_equals_amount [OF this] run show ?thesis by simp
qed

section \<open>The extractor always returns a payee\<close>

lemma score_chunk_returns: "\<exists>n. score_chunk chunk = Inr n"
  by (simp add: score_chunk_table)

lemma score_chunks_returns:
  "\<exists>scored. score_chunks chunks = Inr scored \<and> [] \<notin> snd ` set scored"
proof (induction chunks)
  case Nil
  show ?case by simp
next
  case (Cons chunk rest)
  then obtain scored where rest: "score_chunks rest = Inr scored" "[] \<notin> snd ` set scored"
    by blast
  obtain n where n: "score_chunk (clean_text chunk) = Inr n"
    using score_chunk_returns by blast
  show ?case
  proof (cases "clean_text chunk = []")
    case True
    with rest show ?thesis by simp
  next
    case False
    with rest n show ?thesis by (auto simp: Let_def)
  qed
qed

lemma set_sort_reverse: "set (sort_reverse key xs) = set xs"
  by (simp add: sort_reverse_def)

lemma extract_intelligent_nonempty:
  "\<exists>p. extract_intelligent desc = Inr p \<and> p \<noteq> []"
proof -
  obtain scored where sc: "score_chunks (re_split False CHUNK_SPLIT desc) = Inr scored"
    and ne: "[] \<notin> snd ` set scored"
    using score_chunks_returns by blast
  show ?thesis
  proof (cases "scored = []")
    case True
    with sc show ?thesis by (simp add: extract_intelligent_def Let_def)
  next
    case False
    then have "sort_reverse fst scored \<noteq> []"
      using set_sort_reverse [of fst scored] by (metis set_empty)
    then obtain best more where srt: "sort_reverse fst scored = best # more"
      by (cases "sort_reverse fst scored") auto
    then have "best \<in> set scored"
      using set_sort_reverse [of fst scored] by (metis list.set_intros(1))
    with ne have "snd best \<noteq> []" by force
    with sc False srt show ?thesis by (simp add: extract_intelligent_def)
  qed
qed

lemma extract_after_prefix_loop_nonempty:
  "extract_after_prefix_loop ps text = Some p \<Longrightarrow> p \<noteq> []"
  by (induction ps) (auto simp: Let_def split: option.splits if_splits)

text \<open>
  C3. For every description the extractor returns (no \<^verbatim>\<open>IndexError\<close>: the only
  subscripts, \<^verbatim>\<open>chunk[0]\<close> and \<^verbatim>\<open>scored_chunks[0]\<close>, are reached on non-empty values only)
  and the payee it returns is not empty; a description that is empty or all whitespace
  gives \<^verbatim>\<open>Unknown\<close>.
\<close>

theorem C3_extract_total_nonempty:
  "\<exists>p. extract_payee desc = Inr p \<and> p \<noteq> [] \<and> (strip desc = [] \<longrightarrow> p = ''Unknown'')"
proof (cases "desc = [] \<or> strip desc = []")
  case True
  then show ?thesis by (simp add: extract_payee_def)
next
  case False
  show ?thesis
  proof (cases "extract_after_prefix desc")
    case None
    with False extract_intelligent_nonempty [of desc] show ?thesis
      by (auto simp: extract_payee_def)
  next
    case (Some p)
    then have "p \<noteq> []"
      unfolding extract_after_prefix_def by (rule extract_after_prefix_loop_nonempty)
    with False Some show ?thesis by (simp add: extract_payee_def)
  qed
qed

theorem C3_extract_total_nonempty_witness:
  "strip ''   '' = [] \<and> extract_payee ''   '' = Inr ''Unknown''"
proof -
  have s: "strip ''   '' = []" by code_simp
  from C3_extract_total_nonempty [of "''   ''"] s show ?thesis by auto
qed

section \<open>Ties between chunks\<close>

lemma insort_key_above_all:
  "\<forall>z\<in>set zs. f z < f x \<Longrightarrow> insort_key f x zs = zs @ [x]"
  by (induction zs) auto

lemma last_insort_key_below:
  "zs \<noteq> [] \<Longrightarrow> f y \<le> f (last zs) \<Longrightarrow> last (insort_key f y zs) = last zs"
  by (induction zs) auto

lemma sort_key_nonempty: "sort_key f (ys @ x # zs) \<noteq> []"
  by (metis append_is_Nil_conv length_0_conv length_sort list.distinct(1))

lemma last_sort_key:
  fixes f :: "'a \<Rightarrow> int"
  assumes "\<forall>y\<in>set ys. f y \<le> f x" and "\<forall>z\<in>set zs. f z < f x"
  shows "last (sort_key f (ys @ x # zs)) = x"
  using assms(1)
proof (induction ys)
  case Nil
  have "\<forall>z\<in>set (sort_key f zs). f z < f x" using assms(2) by simp
  then have "insort_key f x (sort_key f zs) = sort_key f zs @ [x]"
    by (rule insort_key_above_all)
  then show ?case by simp
next
  case (Cons y ys)
  then have ih: "last (sort_key f (ys @ x # zs)) = x" and le: "f y \<le> f x" by simp_all
  have "last (insort_key f y (sort_key f (ys @ x # zs))) = last (sort_key f (ys @ x # zs))"
    by (rule last_insort_key_below) (simp_all add: sort_key_nonempty ih le)
  with ih show ?case by simp
qed

lemma hd_sort_reverse:
  fixes key :: "'a \<Rightarrow> int"
  assumes "\<forall>p\<in>set pre. key p < key x" and "\<forall>q\<in>set post. key q \<le> key x"
  shows "\<exists>more. sort_reverse key (pre @ x # post) = x # more"
proof -
  have "last (sort_key key (rev post @ x # rev pre)) = x"
    by (rule last_sort_key) (use assms in simp_all)
  moreover have "sort_key key (rev post @ x # rev pre) \<noteq> []"
    by (rule sort_key_nonempty)
  ultimately have "hd (rev (sort_key key (rev post @ x # rev pre))) = x"
    by (simp add: hd_rev)
  moreover have "rev (sort_key key (rev post @ x # rev pre)) \<noteq> []"
    using \<open>sort_key key (rev post @ x # rev pre) \<noteq> []\<close> by simp
  ultimately show ?thesis
    by (cases "rev (sort_key key (rev post @ x # rev pre))") (auto simp: sort_reverse_def)
qed

text \<open>
  C7. \<open>score_chunks\<close> lists the surviving chunks with their scores in the order in which
  they occur in the description. When a chunk's score is strictly greater than the score
  of every earlier chunk and at least the score of every later one (so that it is the
  earliest chunk with the highest score), the fallback path returns that chunk: the
  sort with \<^verbatim>\<open>reverse=True\<close> is stable.
\<close>

theorem C7_earliest_chunk_wins_ties:
  assumes "score_chunks (re_split False CHUNK_SPLIT desc) = Inr (pre @ (score, chunk) # post)"
    and "\<forall>p\<in>set pre. fst p < score"
    and "\<forall>q\<in>set post. fst q \<le> score"
  shows "extract_intelligent desc = Inr chunk"
proof -
  obtain more where "sort_reverse fst (pre @ (score, chunk) # post) = (score, chunk) # more"
    using hd_sort_reverse [of pre fst "(score, chunk)" post] assms(2,3) by auto
  with assms(1) show ?thesis by (simp add: extract_intelligent_def)
qed

theorem C7_earliest_chunk_wins_ties_witness:
  "score_chunks (re_split False CHUNK_SPLIT ''Tea  |  Coffee shop  |  Burger bars'')
     = Inr ([(3, ''Tea'')] @ (8, ''Coffee shop'') # [(8, ''Burger bars'')])
   \<and> extract_intelligent ''Tea  |  Coffee shop  |  Burger bars'' = Inr ''Coffee shop''
   \<and> extract_payee ''Tea  |  Coffee shop  |  Burger bars'' = Inr ''Coffee shop''"
proof -
  have sc: "score_chunks (re_split False CHUNK_SPLIT ''Tea  |  Coffee shop  |  Burger bars'')
     = Inr ([(3, ''Tea'')] @ (8, ''Coffee shop'') # [(8, ''Burger bars'')])"
    by code_simp
  have ex: "extract_intelligent ''Tea  |  Coffee shop  |  Burger bars'' = Inr ''Coffee shop''"
    by (rule C7_earliest_chunk_wins_ties [OF sc]) simp_all
  have "extract_payee ''Tea  |  Coffee shop  |  Burger bars'' = Inr ''Coffee shop''"
    by code_simp
  with sc ex show ?thesis by simp
qed
section \<open>Junk lines\<close>

lemma ends_Star_nonempty: "ends ic (Star r) z \<noteq> []"
  by simp

lemma ends_Seq_nonempty:
  "z' \<in> set (ends ic r1 z) \<Longrightarrow> ends ic r2 z' \<noteq> [] \<Longrightarrow> ends ic (Seq r1 r2) z \<noteq> []"
  by auto

lemma ends_Str_ci:
  "map lower_char m = map lower_char s \<Longrightarrow> ends True (Str s) (b, m @ a) = [(rev m @ b, a)]"
proof (induction s arbitrary: m b)
  case Nil
  then show ?case by simp
next
  case (Cons c s)
  then obtain d m' where m: "m = d # m'" by (cases m) auto
  with Cons.prems have d: "lower_char d = lower_char c" and m': "map lower_char m' = map lower_char s"
    by simp_all
  from Cons.IH [OF m', of "d # b"] m d show ?case by simp
qed

lemma search_from_later:
  "first_match ic r (rev pre @ b, rest) \<noteq> None \<Longrightarrow> search_from ic r b (pre @ rest)"
proof (induction pre arbitrary: b)
  case Nil
  then show ?case by (cases rest) auto
next
  case (Cons c pre)
  then show ?case by simp
qed

lemma first_match_iff: "first_match ic r z \<noteq> None \<longleftrightarrow> ends ic r z \<noteq> []"
  by (simp add: first_match_def split: list.splits)

text \<open>
  A piece of the lower-cased line that does not contain the combining dot is the
  character-wise lower-casing of a piece of the line itself: the two characters that
  \<open>dotted_I\<close> becomes never both lie in such a piece.
\<close>

lemma lower_Cons: "lower (c # s) = lower_str c @ lower s"
  by (simp add: lower_def)

lemma lower_Nil: "lower [] = []"
  by (simp add: lower_def)

lemma lowered_prefix_source:
  "lower line = t @ post \<Longrightarrow> combining_dot \<notin> set t \<Longrightarrow>
   \<exists>m ws. line = m @ ws \<and> map lower_char m = t"
proof (induction line arbitrary: t)
  case Nil
  then show ?case by (simp add: lower_Nil)
next
  case (Cons c cs)
  show ?case
  proof (cases t)
    case Nil
    then show ?thesis by simp
  next
    case t: (Cons a t')
    show ?thesis
    proof (cases "c = dotted_I")
      case True
      with Cons.prems(1) t have a: "a = CHR ''i''" and rest: "combining_dot # lower cs = t' @ post"
        by (simp_all add: lower_Cons lower_str_def)
      from rest Cons.prems(2) t have "t' = []" by (cases t') auto
      with a t True have "c # cs = [c] @ cs \<and> map lower_char [c] = t"
        by (simp add: lower_char_def dotted_I_def ascii_uppercase_def ascii_lowercase_def)
      then show ?thesis by blast
    next
      case False
      with Cons.prems(1) t have a: "a = lower_char c" and rest: "lower cs = t' @ post"
        by (simp_all add: lower_Cons lower_str_def)
      from Cons.prems(2) t have "combining_dot \<notin> set t'" by simp
      from Cons.IH [OF rest this] obtain m ws where "cs = m @ ws" "map lower_char m = t'"
        by blast
      with a t have "c # cs = (c # m) @ ws \<and> map lower_char (c # m) = t" by simp
      then show ?thesis by blast
    qed
  qed
qed

lemma lowered_infix_source:
  "lower line = pre @ t @ post \<Longrightarrow> combining_dot \<notin> set t \<Longrightarrow>
   \<exists>us m ws. line = us @ m @ ws \<and> map lower_char m = t"
proof (induction line arbitrary: pre)
  case Nil
  then show ?case by (simp add: lower_Nil)
next
  case (Cons c cs)
  show ?case
  proof (cases pre)
    case Nil
    with Cons.prems lowered_prefix_source [of "c # cs" t post]
    obtain m ws where "c # cs = m @ ws" "map lower_char m = t" by auto
    then have "c # cs = [] @ m @ ws \<and> map lower_char m = t" by simp
    then show ?thesis by blast
  next
    case pre: (Cons p pre')
    have "\<exists>us m ws. cs = us @ m @ ws \<and> map lower_char m = t"
    proof (cases "c = dotted_I")
      case False
      with Cons.prems(1) pre have "lower cs = pre' @ t @ post"
        by (simp add: lower_Cons lower_str_def)
      from Cons.IH [OF this Cons.prems(2)] show ?thesis .
    next
      case True
      with Cons.prems(1) pre have rest: "combining_dot # lower cs = pre' @ t @ post"
        by (simp add: lower_Cons lower_str_def)
      show ?thesis
      proof (cases pre')
        case Nil
        with rest Cons.prems(2) have "t = []" by (cases t) auto
        then have "cs = [] @ [] @ cs \<and> map lower_char [] = t" by simp
        then show ?thesis by blast
      next
        case (Cons q pre'')
        with rest have "lower cs = pre'' @ t @ post" by simp
        from Cons.IH [OF this Cons.prems(2)] show ?thesis .
      qed
    qed
    then obtain us m ws where "cs = us @ m @ ws" "map lower_char m = t" by blast
    then have "c # cs = (c # us) @ m @ ws \<and> map lower_char m = t" by simp
    then show ?thesis by blast
  qed
qed

lemma search_literal_then_anything:
  assumes "lower line = pre @ t @ post" and "combining_dot \<notin> set t"
    and "map lower_char s = t"
  shows "re_search True (Seq (Str s) (Star (Atom Dot))) line"
proof -
  from lowered_infix_source [OF assms(1,2)] obtain us m ws
    where line: "line = us @ m @ ws" and m: "map lower_char m = t"
    by blast
  have "ends True (Str s) (rev us, m @ ws) = [(rev m @ rev us, ws)]"
    by (rule ends_Str_ci) (simp add: m assms(3))
  then have "ends True (Seq (Str s) (Star (Atom Dot))) (rev us, m @ ws) \<noteq> []"
    by (intro ends_Seq_nonempty [where z' = "(rev m @ rev us, ws)"]) simp_all
  then have "first_match True (Seq (Str s) (Star (Atom Dot))) (rev us @ [], m @ ws) \<noteq> None"
    unfolding first_match_iff by simp
  then have "search_from True (Seq (Str s) (Star (Atom Dot))) [] (us @ m @ ws)"
    by (rule search_from_later)
  with line show ?thesis by (simp add: re_search_def)
qed

lemma lower_id: "map lower_char ''ID:'' = ''id:'' \<and> combining_dot \<notin> set ''id:''"
  by code_simp

lemma junk_line_ignored: "is_junk_line line \<Longrightarrow> process_line st line = st"
  by (simp add: process_line_def)

lemma foldl_junk_line_ignored:
  "is_junk_line line \<Longrightarrow>
   foldl process_line st (xs @ line # ys) = foldl process_line st (xs @ ys)"
  by (simp add: junk_line_ignored)

lemma lower_paypal_balance:
  "map lower_char ''PayPal Balance'' = ''paypal balance''
   \<and> combining_dot \<notin> set ''paypal balance''"
  by code_simp

text \<open>
  C10. The patterns \<^verbatim>\<open>PayPal Balance.*\<close>, \<^verbatim>\<open>ID:.*\<close>, \<^verbatim>\<open>Individual ID:.*\<close> and
  \<^verbatim>\<open>Ref ID:.*\<close> are searched unanchored and without regard to case. A line whose
  lower-cased text contains \<^verbatim>\<open>id:\<close> (or \<^verbatim>\<open>paypal balance\<close>) anywhere is junk: the parser
  state is the same after it as before, and dropping the line from the input does not
  change the transactions. The line may begin with a date, as \<^verbatim>\<open>12/01/2025 Paid: rent\<close>
  does.
\<close>

theorem C10_id_substring_is_junk:
  assumes "lower line = pre @ ''id:'' @ post \<or> lower line = pre @ ''paypal balance'' @ post"
  shows "is_junk_line line \<and> process_line st line = st
         \<and> parse_lines (xs @ line # ys) = parse_lines (xs @ ys)"
proof -
  from assms have
    "re_search True (Seq (Str ''ID:'') (Star (Atom Dot))) line \<or>
     re_search True (Seq (Str ''PayPal Balance'') (Star (Atom Dot))) line"
  proof
    assume "lower line = pre @ ''id:'' @ post"
    then have "re_search True (Seq (Str ''ID:'') (Star (Atom Dot))) line"
      using lower_id by (intro search_literal_then_anything [where pre = pre and post = post]) auto
    then show ?thesis ..
  next
    assume "lower line = pre @ ''paypal balance'' @ post"
    then have "re_search True (Seq (Str ''PayPal Balance'') (Star (Atom Dot))) line"
      using lower_paypal_balance
      by (intro search_literal_then_anything [where pre = pre and post = post]) auto
    then show ?thesis ..
  qed
  then have junk: "is_junk_line line"
    by (auto simp: is_junk_line_def JUNK_PATTERNS_def)
  then show ?thesis
    by (simp add: junk_line_ignored foldl_junk_line_ignored parse_lines_def)
qed

theorem C10_id_substring_is_junk_witness:
  "lower ''12/01/2025 Paid: rent'' = ''12/01/2025 pa'' @ ''id:'' @ '' rent''
   \<and> is_junk_line ''12/01/2025 Paid: rent''
   \<and> parse_lines ([] @ ''12/01/2025 Paid: rent'' # [''12/02/2025 Coffee'']) =
       parse_lines ([] @ [''12/02/2025 Coffee''])
   \<and> re_match False DATE_PATTERN ''12/01/2025 Paid: rent'' = Some (''12/01/2025'', '' Paid: rent'')"
proof -
  have l: "lower ''12/01/2025 Paid: rent'' = ''12/01/2025 pa'' @ ''id:'' @ '' rent''"
    by code_simp
  have d: "re_match False DATE_PATTERN ''12/01/2025 Paid: rent'' = Some (''12/01/2025'', '' Paid: rent'')"
    by code_simp
  from l have "lower ''12/01/2025 Paid: rent'' = ''12/01/2025 pa'' @ ''id:'' @ '' rent'' \<or>
      lower ''12/01/2025 Paid: rent'' = ''12/01/2025 pa'' @ ''paypal balance'' @ '' rent''" ..
  from C10_id_substring_is_junk [OF this, of initial_state "[]" "[''12/02/2025 Coffee'']"] l d
  show ?thesis by simp
qed

section \<open>Transaction boundaries\<close>

lemma save_current_prepend: "save_current (prepend ts st) = ts @ save_current st"
  by (simp add: save_current_def prepend_def split: option.splits)

lemma process_line_prepend:
  "process_line (prepend ts st) line = prepend ts (process_line st line)"
proof (cases "is_junk_line line")
  case True
  then show ?thesis by (simp add: process_line_def)
next
  case False
  show ?thesis
  proof (cases "re_match False DATE_PATTERN line")
    case (Some m)
    obtain d after where m: "m = (d, after)" by (cases m)
    have "start_transaction d after (prepend ts st) = prepend ts (start_transaction d after st)"
      using save_current_prepend [of ts st]
      by (simp add: start_transaction_def Let_def prepend_def)
    with False Some m show ?thesis by (simp add: process_line_def)
  next
    case None
    show ?thesis
    proof (cases "current_transaction st")
      case cn: None
      with False None show ?thesis by (simp add: process_line_def prepend_def)
    next
      case (Some t)
      with False None show ?thesis
        by (simp add: process_line_def prepend_def continue_transaction_def Let_def)
    qed
  qed
qed

lemma foldl_process_line_prepend:
  "foldl process_line (prepend ts st) lines = prepend ts (foldl process_line st lines)"
  by (induction lines arbitrary: st) (simp_all add: process_line_prepend)

lemma process_anchor:
  assumes "is_anchor b"
  shows "process_line st b = prepend (save_current st) (process_line initial_state b)"
proof -
  from assms obtain d after where m: "re_match False DATE_PATTERN b = Some (d, after)"
    and nj: "\<not> is_junk_line b"
    by (auto simp: is_anchor_def)
  have "start_transaction d after st
        = prepend (save_current st) (start_transaction d after initial_state)"
    by (simp add: start_transaction_def Let_def prepend_def save_current_def initial_state_def)
  with m nj show ?thesis by (simp add: process_line_def)
qed

lemma parse_lines_split_at_anchor:
  assumes "is_anchor b"
  shows "parse_lines (xs @ b # ys) = parse_lines xs @ parse_lines (b # ys)"
proof -
  let ?S = "foldl process_line initial_state xs"
  have "foldl process_line initial_state (xs @ b # ys)
        = foldl process_line (process_line ?S b) ys"
    by simp
  also have "\<dots> = foldl process_line
                     (prepend (save_current ?S) (process_line initial_state b)) ys"
    by (simp add: process_anchor [OF assms, of ?S])
  also have "\<dots> = prepend (save_current ?S)
                     (foldl process_line (process_line initial_state b) ys)"
    by (rule foldl_process_line_prepend)
  finally show ?thesis
    by (simp add: parse_lines_def save_current_prepend)
qed

lemma process_anchor_opens:
  assumes "is_anchor a"
  shows "open_since (anchor_date a) (process_line initial_state a)"
proof -
  from assms obtain d after where m: "re_match False DATE_PATTERN a = Some (d, after)"
    and nj: "\<not> is_junk_line a"
    by (auto simp: is_anchor_def)
  then show ?thesis
    by (simp add: process_line_def anchor_date_def open_since_def start_transaction_def
          Let_def save_current_def initial_state_def Transaction_def)
qed

lemma process_line_keeps_open:
  assumes "open_since d st" and "\<not> is_anchor line"
  shows "open_since d (process_line st line)"
proof (cases "is_junk_line line")
  case True
  with assms show ?thesis by (simp add: process_line_def)
next
  case False
  with assms(2) have "re_match False DATE_PATTERN line = None"
    by (cases "re_match False DATE_PATTERN line") (simp_all add: is_anchor_def)
  with False assms(1) show ?thesis
    by (auto simp: process_line_def open_since_def continue_transaction_def Let_def
             split: option.splits)
qed

lemma foldl_keeps_open:
  "open_since d st \<Longrightarrow> \<forall>l\<in>set lines. \<not> is_anchor l \<Longrightarrow>
   open_since d (foldl process_line st lines)"
  by (induction lines arbitrary: st) (simp_all add: process_line_keeps_open)

lemma save_current_open:
  "open_since d st \<Longrightarrow> \<exists>t. save_current st = [t] \<and> date t = d"
  by (auto simp: open_since_def save_current_def split: option.splits)

lemma open_imp_first: "open_since d st \<Longrightarrow> first_from d st"
  by (auto simp: open_since_def first_from_def split: option.splits)

lemma process_line_keeps_first:
  assumes "first_from d st"
  shows "first_from d (process_line st line)"
proof (cases "is_junk_line line")
  case True
  with assms show ?thesis by (simp add: process_line_def)
next
  case False
  show ?thesis
  proof (cases "re_match False DATE_PATTERN line")
    case (Some m)
    obtain d' after where m: "m = (d', after)" by (cases m)
    from assms have "first_from d (start_transaction d' after st)"
      by (auto simp: first_from_def start_transaction_def Let_def save_current_def
               split: option.splits list.splits)
    with False Some m show ?thesis by (simp add: process_line_def)
  next
    case None
    with False assms show ?thesis
      by (auto simp: process_line_def first_from_def continue_transaction_def Let_def
               split: option.splits list.splits)
  qed
qed

lemma foldl_keeps_first:
  "first_from d st \<Longrightarrow> first_from d (foldl process_line st lines)"
  by (induction lines arbitrary: st) (simp_all add: process_line_keeps_first)

lemma save_current_first:
  "first_from d st \<Longrightarrow> \<exists>t ts. save_current st = t # ts \<and> date t = d"
  by (auto simp: first_from_def save_current_def split: option.splits list.splits)

lemma process_line_appends:
  "\<exists>new. transactions (process_line st line) = transactions st @ new"
  by (auto simp: process_line_def start_transaction_def continue_transaction_def Let_def
        save_current_def split: option.splits)

text \<open>
  C6 (as amended). An anchor is a line that is not junk and begins with a date. For two
  anchors \<open>a\<close> and \<open>b\<close> with no anchor between them (\<open>mid = []\<close> when they are
  consecutive), the parser's output is the output for the lines before \<open>a\<close>, then exactly
  one transaction for \<open>a\<close>, computed from \<open>a\<close> and \<open>mid\<close> alone and dated by \<open>a\<close>, then the
  output for the lines from \<open>b\<close> on, which starts with the transaction dated by \<open>b\<close>. A
  step of the parser only appends to the list of finished transactions.
\<close>

theorem C6_transaction_boundary:
  assumes "is_anchor a" and "is_anchor b" and "\<forall>l\<in>set mid. \<not> is_anchor l"
  shows "\<exists>ta tb rest.
           parse_lines (pre @ a # mid @ b # post) = parse_lines pre @ ta # tb # rest
         \<and> parse_lines (a # mid) = [ta] \<and> date ta = anchor_date a
         \<and> parse_lines (b # post) = tb # rest \<and> date tb = anchor_date b
         \<and> (\<exists>new. transactions (process_line st line) = transactions st @ new)"
proof -
  have "open_since (anchor_date a) (foldl process_line (process_line initial_state a) mid)"
    by (rule foldl_keeps_open [OF process_anchor_opens [OF assms(1)] assms(3)])
  then obtain ta where ta: "parse_lines (a # mid) = [ta]" "date ta = anchor_date a"
    using save_current_open by (fastforce simp: parse_lines_def)
  have "first_from (anchor_date b) (foldl process_line (process_line initial_state b) post)"
    by (rule foldl_keeps_first [OF open_imp_first [OF process_anchor_opens [OF assms(2)]]])
  then obtain tb rest where tb: "parse_lines (b # post) = tb # rest" "date tb = anchor_date b"
    using save_current_first by (fastforce simp: parse_lines_def)
  have "parse_lines (pre @ a # mid @ b # post)
        = parse_lines pre @ parse_lines (a # mid @ b # post)"
    by (rule parse_lines_split_at_anchor [OF assms(1)])
  also have "parse_lines (a # mid @ b # post) = parse_lines (a # mid) @ parse_lines (b # post)"
    using parse_lines_split_at_anchor [OF assms(2), of "a # mid" post] by simp
  finally have "parse_lines (pre @ a # mid @ b # post) = parse_lines pre @ ta # tb # rest"
    using ta tb by simp
  with ta tb process_line_appends [of st line] show ?thesis by blast
qed


theorem C6_transaction_boundary_witness:
  "is_anchor ''12/01/2025 Coffee shop'' \<and> is_anchor ''12/02/2025 Tea house''
   \<and> \<not> is_anchor ''Downtown branch''
   \<and> (\<exists>ta tb rest.
         parse_lines ([] @ ''12/01/2025 Coffee shop'' # [''Downtown branch'']
                         @ ''12/02/2025 Tea house'' # [])
           = parse_lines [] @ ta # tb # rest
       \<and> parse_lines (''12/01/2025 Coffee shop'' # [''Downtown branch'']) = [ta]
       \<and> date ta = anchor_date ''12/01/2025 Coffee shop''
       \<and> parse_lines (''12/02/2025 Tea house'' # []) = tb # rest
       \<and> date tb = anchor_date ''12/02/2025 Tea house''
       \<and> (\<exists>new. transactions (process_line initial_state ''Downtown branch'')
                     = transactions initial_state @ new))
   \<and> map description (parse_lines [''12/01/2025 Coffee shop'', ''Downtown branch'',
                                      ''12/02/2025 Tea house''])
       = [''Coffee shop Downtown branch'', ''Tea house'']"
proof -
  have a: "is_anchor ''12/01/2025 Coffee shop''" by code_simp
  have b: "is_anchor ''12/02/2025 Tea house''" by code_simp
  have m: "\<not> is_anchor ''Downtown branch''" by code_simp
  then have mid: "\<forall>l\<in>set [''Downtown branch'']. \<not> is_anchor l" by simp
  have run: "map description (parse_lines [''12/01/2025 Coffee shop'', ''Downtown branch'',
                                      ''12/02/2025 Tea house''])
       = [''Coffee shop Downtown branch'', ''Tea house'']"
    by code_simp
  from C6_transaction_boundary [OF a b mid, of "[]" "[]" initial_state "''Downtown branch''"]
    a b m run
  show ?thesis by blast
qed

text \<open>
  C6 as stated fails for a line that begins with a date and is junk: it is dropped before
  the date is looked at, so it starts no transaction, and the lines after it go on
  extending the transaction before it.
\<close>

theorem C6_junk_date_line_counterexample:
  "re_match False DATE_PATTERN ''12/01/2025 Coffee'' = Some (''12/01/2025'', '' Coffee'')
   \<and> re_match False DATE_PATTERN ''12/02/2025 Paid: rent''
       = Some (''12/02/2025'', '' Paid: rent'')
   \<and> map date (parse_lines [''12/01/2025 Coffee'', ''12/02/2025 Paid: rent'',
                              ''Landlord office'']) = [''12/01/2025'']
   \<and> map description (parse_lines [''12/01/2025 Coffee'', ''12/02/2025 Paid: rent'',
                                     ''Landlord office'']) = [''Coffee Landlord office'']
   \<and> map date (parse_lines [''12/01/2025 Paid: rent'', ''12/02/2025 Coffee''])
       = [''12/02/2025'']"
  by code_simp

section \<open>Prefix extraction\<close>



text \<open>
  A prefix that occurs but has nothing after it is passed over, and the next prefix in
  the priority order is tried.
\<close>

lemma empty_remainder_is_passed_over:
  "find_sub (lower ''Transaction:'') (lower ''Payment to: Acme Corp  Transaction:'') = Some 23
   \<and> prefix_remainder ''Transaction:'' ''Payment to: Acme Corp  Transaction:'' = []
   \<and> extract_payee ''Payment to: Acme Corp  Transaction:'' = Inr ''Acme Corp Transaction:''"
  by code_simp






section \<open>Cleaning twice\<close>

subsection \<open>Words, joining and stripping\<close>

lemma is_space_blank: "is_space CHR '' ''"
  by (simp add: is_space_def ascii_whitespace_def)

lemma fields_nonempty: "ws_fields s \<noteq> []"
  by (induction s) (auto split: list.splits)

lemma fields_spaceless: "w \<in> set (ws_fields s) \<Longrightarrow> c \<in> set w \<Longrightarrow> \<not> is_space c"
proof (induction s arbitrary: w)
  case Nil
  then show ?case by simp
next
  case (Cons d s)
  show ?case
  proof (cases "is_space d")
    case True
    with Cons show ?thesis by auto
  next
    case False
    obtain v vs where f: "ws_fields s = v # vs"
      using fields_nonempty [of s] by (cases "ws_fields s") auto
    with False Cons.prems have "w = d # v \<or> w \<in> set vs" by auto
    then show ?thesis
    proof
      assume "w = d # v"
      with Cons.prems(2) have "c = d \<or> c \<in> set v" by auto
      with False Cons.IH [of v] f show ?thesis by auto
    next
      assume "w \<in> set vs"
      with Cons.IH [of w] Cons.prems(2) f show ?thesis by auto
    qed
  qed
qed

lemma split_ws_words:
  "w \<in> set (split_ws s) \<Longrightarrow> w \<noteq> [] \<and> (\<forall>c\<in>set w. \<not> is_space c)"
  using fields_spaceless [of w s] by (auto simp: split_ws_def)

lemma fields_word_append:
  "\<forall>c\<in>set w. \<not> is_space c \<Longrightarrow> ws_fields (w @ s) = (w @ hd (ws_fields s)) # tl (ws_fields s)"
proof (induction w)
  case Nil
  then show ?case using fields_nonempty [of s] by simp
next
  case (Cons d w)
  then show ?case by simp
qed

lemma fields_join:
  "ws \<noteq> [] \<Longrightarrow> \<forall>w\<in>set ws. \<forall>c\<in>set w. \<not> is_space c \<Longrightarrow> ws_fields (join '' '' ws) = ws"
proof (induction "'' ''" ws rule: join.induct)
  case 1
  then show ?case by simp
next
  case (2 w)
  then show ?case using fields_word_append [of w "[]"] by simp
next
  case (3 w v vs)
  then have ih: "ws_fields (join '' '' (v # vs)) = v # vs" by simp
  from 3 have w: "\<forall>c\<in>set w. \<not> is_space c" by simp
  have "ws_fields (w @ CHR '' '' # join '' '' (v # vs)) = w # ws_fields (join '' '' (v # vs))"
    using fields_word_append [OF w, of "CHR '' '' # join '' '' (v # vs)"]
    by (simp add: is_space_blank)
  with ih show ?case by simp
qed

lemma split_ws_join:
  assumes "\<forall>w\<in>set ws. w \<noteq> [] \<and> (\<forall>c\<in>set w. \<not> is_space c)"
  shows "split_ws (join '' '' ws) = ws"
proof (cases "ws = []")
  case True
  then show ?thesis by (simp add: split_ws_def)
next
  case False
  with assms have "ws_fields (join '' '' ws) = ws" by (intro fields_join) auto
  moreover from assms have "filter (\<lambda>w. w \<noteq> []) ws = ws" by (simp add: filter_id_conv)
  ultimately show ?thesis by (simp add: split_ws_def)
qed

lemma lower_char_cases:
  "lower_char c = c \<or> lower_char c \<in> set ascii_lowercase"
proof (cases "map_of (zip ascii_uppercase ascii_lowercase) c")
  case None
  then show ?thesis by (simp add: lower_char_def ascii_lowercase_def)
next
  case (Some d)
  then have "(c, d) \<in> set (zip ascii_uppercase ascii_lowercase)" by (rule map_of_SomeD)
  then have "d \<in> set ascii_lowercase" by (metis in_set_zipE)
  with Some show ?thesis by (simp add: lower_char_def)
qed

lemma letters_not_space:
  "c \<in> set ascii_uppercase \<or> c \<in> set ascii_lowercase \<Longrightarrow> \<not> is_space c"
  by (auto simp: is_space_def ascii_whitespace_def ascii_uppercase_def ascii_lowercase_def)

lemma named_chars_not_space: "\<not> is_space dotted_I" "\<not> is_space combining_dot"
  by (simp_all add: is_space_def ascii_whitespace_def dotted_I_def combining_dot_def)

lemma lower_str_space: "is_space c \<Longrightarrow> lower_str c = [c]"
proof -
  assume sp: "is_space c"
  then have "c \<noteq> dotted_I" using named_chars_not_space(1) by auto
  moreover from sp have "c \<notin> set ascii_uppercase" using letters_not_space by blast
  then have "map_of (zip ascii_uppercase ascii_lowercase) c = None"
    by (simp add: map_of_eq_None_iff ascii_uppercase_def ascii_lowercase_def)
  ultimately show ?thesis by (simp add: lower_str_def lower_char_def)
qed

lemma lower_str_nonspace:
  assumes "\<not> is_space c" and "x \<in> set (lower_str c)"
  shows "\<not> is_space x"
proof (cases "c = dotted_I")
  case True
  with assms(2) have "x = CHR ''i'' \<or> x = combining_dot" by (simp add: lower_str_def)
  then show ?thesis
    using named_chars_not_space(2) letters_not_space [of "CHR ''i''"]
    by (auto simp: ascii_lowercase_def)
next
  case False
  with assms(2) have "x = lower_char c" by (simp add: lower_str_def)
  with lower_char_cases [of c] assms(1) letters_not_space [of x] show ?thesis by auto
qed

lemma lower_eq_Nil: "lower w = [] \<longleftrightarrow> w = []"
  by (cases w) (simp_all add: lower_def lower_str_def)

lemma fields_lower: "ws_fields (lower s) = map lower (ws_fields s)"
proof (induction s)
  case Nil
  show ?case by (simp add: lower_Nil)
next
  case (Cons c s)
  obtain v vs where f: "ws_fields s = v # vs"
    using fields_nonempty [of s] by (cases "ws_fields s") auto
  show ?case
  proof (cases "is_space c")
    case True
    with Cons show ?thesis by (simp add: lower_Cons lower_Nil lower_str_space)
  next
    case False
    then have "\<forall>x\<in>set (lower_str c). \<not> is_space x" using lower_str_nonspace by blast
    from fields_word_append [OF this, of "lower s"] Cons f False
    show ?thesis by (simp add: lower_Cons)
  qed
qed

lemma split_ws_lower: "split_ws (lower s) = map lower (split_ws s)"
proof -
  have "filter (\<lambda>w. w \<noteq> []) (map lower xs) = map lower (filter (\<lambda>w. w \<noteq> []) xs)" for xs
    by (induction xs) (auto simp: lower_eq_Nil)
  then show ?thesis by (simp only: split_ws_def fields_lower)
qed

lemma strip_unchanged:
  "s = [] \<or> (\<not> is_space (hd s) \<and> \<not> is_space (last s)) \<Longrightarrow> strip s = s"
proof (cases s)
  case Nil
  then show ?thesis by (simp add: strip_def)
next
  case (Cons c cs)
  assume "s = [] \<or> (\<not> is_space (hd s) \<and> \<not> is_space (last s))"
  with Cons have h: "\<not> is_space (hd s)" and l: "\<not> is_space (last s)" by auto
  from Cons h have 1: "dropWhile is_space s = s" by simp
  from l have "\<not> is_space (hd (rev s))" unfolding hd_rev .
  then have 2: "dropWhile is_space (rev s) = rev s"
    by (cases "rev s") simp_all
  show ?thesis by (simp add: strip_def 1 2)
qed

lemma hd_join:
  "ws \<noteq> [] \<Longrightarrow> \<forall>w\<in>set ws. w \<noteq> [] \<Longrightarrow> hd (join sep ws) = hd (hd ws)"
  by (induction sep ws rule: join.induct) auto

lemma last_join:
  "ws \<noteq> [] \<Longrightarrow> \<forall>w\<in>set ws. w \<noteq> [] \<Longrightarrow> last (join sep ws) = last (last ws)"
proof (induction sep ws rule: join.induct)
  case (3 sep w v vs)
  then have "join sep (v # vs) \<noteq> []" by (cases vs) auto
  with 3 show ?case by simp
qed auto

lemma join_eq_Nil: "\<forall>w\<in>set ws. w \<noteq> [] \<Longrightarrow> join sep ws = [] \<longleftrightarrow> ws = []"
  by (induction sep ws rule: join.induct) auto

lemma strip_join:
  assumes "\<forall>w\<in>set ws. w \<noteq> [] \<and> (\<forall>c\<in>set w. \<not> is_space c)"
  shows "strip (join '' '' ws) = join '' '' ws"
proof (cases "ws = []")
  case True
  then show ?thesis by (simp add: strip_def)
next
  case False
  with assms have "hd (join '' '' ws) = hd (hd ws)" "last (join '' '' ws) = last (last ws)"
    by (simp_all add: hd_join last_join)
  moreover from False assms have "hd ws \<in> set ws" "last ws \<in> set ws" by simp_all
  with assms have "hd (hd ws) \<in> set (hd ws)" "last (last ws) \<in> set (last ws)"
    by simp_all
  with assms \<open>hd ws \<in> set ws\<close> \<open>last ws \<in> set ws\<close>
  have "\<not> is_space (hd (hd ws))" "\<not> is_space (last (last ws))" by blast+
  ultimately show ?thesis by (intro strip_unchanged) simp
qed

subsection \<open>Substitution of whitespace runs\<close>

declare sub_from.simps [simp del] findall_from.simps [simp del] split_from.simps [simp del]

lemma ends_star_space:
  "\<exists>more. ends ic (Star (Atom Space)) (b, a)
          = (rev (takeWhile is_space a) @ b, dropWhile is_space a) # more"
proof (induction a arbitrary: b)
  case Nil
  show ?case by simp
next
  case (Cons c cs)
  show ?case
  proof (cases "is_space c")
    case False
    then show ?thesis by simp
  next
    case True
    from Cons [of "c # b"] obtain more where
      "ends ic (Star (Atom Space)) (c # b, cs)
         = (rev (takeWhile is_space cs) @ c # b, dropWhile is_space cs) # more"
      by blast
    with True show ?thesis by simp
  qed
qed

lemma first_match_plus_space:
  "first_match ic (Plus (Atom Space)) (b, a) =
     (case a of [] \<Rightarrow> None
      | c # cs \<Rightarrow> if is_space c
                  then Some (rev (takeWhile is_space a) @ b, dropWhile is_space a)
                  else None)"
proof (cases a)
  case Nil
  then show ?thesis by (simp add: first_match_def Plus_def)
next
  case (Cons c cs)
  show ?thesis
  proof (cases "is_space c")
    case False
    with Cons show ?thesis by (simp add: first_match_def Plus_def)
  next
    case True
    obtain more where
      "ends ic (Star (Atom Space)) (c # b, cs)
         = (rev (takeWhile is_space cs) @ c # b, dropWhile is_space cs) # more"
      using ends_star_space [of ic "c # b" cs] by blast
    with True Cons show ?thesis by (simp add: first_match_def Plus_def)
  qed
qed

lemma sub_spaces_word:
  "\<forall>c\<in>set w. \<not> is_space c \<Longrightarrow>
   sub_from ic (Plus (Atom Space)) repl b (w @ rest)
     = w @ sub_from ic (Plus (Atom Space)) repl (rev w @ b) rest"
proof (induction w arbitrary: b)
  case Nil
  show ?case by simp
next
  case (Cons c w)
  then have c: "\<not> is_space c" and w: "\<forall>c\<in>set w. \<not> is_space c" by simp_all
  have "sub_from ic (Plus (Atom Space)) repl b (c # w @ rest)
        = c # sub_from ic (Plus (Atom Space)) repl (c # b) (w @ rest)"
    by (subst sub_from.simps) (simp add: first_match_plus_space c)
  with Cons.IH [OF w, of "c # b"] show ?case by simp
qed

lemma sub_from_Nil_plus_space: "sub_from ic (Plus (Atom Space)) repl b [] = []"
  by (subst sub_from.simps) (simp add: first_match_plus_space)

lemma sub_spaces_join:
  "\<forall>w\<in>set ws. w \<noteq> [] \<and> (\<forall>c\<in>set w. \<not> is_space c) \<Longrightarrow>
   sub_from ic (Plus (Atom Space)) '' '' b (join '' '' ws) = join '' '' ws"
proof (induction "'' ''" ws arbitrary: b rule: join.induct)
  case 1
  show ?case by (simp add: sub_from_Nil_plus_space)
next
  case (2 w)
  then show ?case
    using sub_spaces_word [of w ic "'' ''" b "[]"] by (simp add: sub_from_Nil_plus_space)
next
  case (3 w v vs)
  let ?J = "join '' '' (v # vs)"
  from 3(2) have w: "\<forall>c\<in>set w. \<not> is_space c"
    and rest: "\<forall>u\<in>set (v # vs). u \<noteq> [] \<and> (\<forall>c\<in>set u. \<not> is_space c)"
    by simp_all
  from rest have "hd ?J = hd v" using hd_join [of "v # vs" "'' ''"] by simp
  moreover from rest have "?J \<noteq> []" using join_eq_Nil [of "v # vs" "'' ''"] by simp
  moreover from rest have "\<not> is_space (hd v)" by simp
  ultimately obtain j js where J: "?J = j # js" and j: "\<not> is_space j"
    by (cases ?J) auto
  have "sub_from ic (Plus (Atom Space)) '' '' (rev w @ b) (CHR '' '' # ?J)
        = '' '' @ sub_from ic (Plus (Atom Space)) '' '' (CHR '' '' # rev w @ b) ?J"
    by (subst sub_from.simps) (simp add: first_match_plus_space is_space_blank J j)
  also have "\<dots> = '' '' @ ?J"
    using "3.hyps" [OF rest, of "CHR '' '' # rev w @ b"] by simp
  finally show ?case
    using sub_spaces_word [OF w, of ic "'' ''" b "CHR '' '' # ?J"] by simp
qed

lemma sub_from_no_match:
  "\<not> search_from ic r b a \<Longrightarrow> sub_from ic r repl b a = a"
proof (induction a arbitrary: b)
  case Nil
  then have "first_match ic r (b, []) = None"
    by (cases "first_match ic r (b, [])") simp_all
  then show ?case by (subst sub_from.simps) simp
next
  case (Cons c cs)
  then have "first_match ic r (b, c # cs) = None" and "\<not> search_from ic r (c # b) cs"
    by (cases "first_match ic r (b, c # cs)"; simp)+
  with Cons.IH [of "c # b"] show ?case by (subst sub_from.simps) simp
qed

lemma re_sub_no_match: "\<not> re_search ic r s \<Longrightarrow> re_sub ic r repl s = s"
  by (simp add: re_search_def re_sub_def sub_from_no_match)

subsection \<open>The shape of a cleaned text\<close>

lemma clean_text_Nil: "clean_text [] = []"
  by code_simp

lemma clean_text_shape:
  "\<exists>fw. clean_text x = join '' '' fw
        \<and> (\<forall>w\<in>set fw. w \<noteq> [] \<and> (\<forall>c\<in>set w. \<not> is_space c)
                        \<and> lower w \<notin> set NOISE_KEYWORDS)"
proof -
  define cleaned where
    "cleaned = strip_chars STRIP_CHARS (re_sub True CLEAN_ID [] (re_sub False CLEAN_AMOUNT [] x))"
  define fw where "fw = filter (\<lambda>w. lower w \<notin> set NOISE_KEYWORDS) (split_ws cleaned)"
  have words: "\<forall>w\<in>set fw. w \<noteq> [] \<and> (\<forall>c\<in>set w. \<not> is_space c) \<and> lower w \<notin> set NOISE_KEYWORDS"
    using split_ws_words [of _ cleaned] by (auto simp: fw_def)
  then have plain: "\<forall>w\<in>set fw. w \<noteq> [] \<and> (\<forall>c\<in>set w. \<not> is_space c)" by blast
  show ?thesis
  proof (cases "list_all (\<lambda>word. word \<in> set NOISE_KEYWORDS)
                  (filter (\<lambda>word. word \<noteq> []) (split_ws (lower cleaned)))")
    case True
    then have "clean_text x = join '' '' []"
      by (simp add: clean_text_def Let_def cleaned_def)
    then show ?thesis by (intro exI [of _ "[]"]) simp
  next
    case False
    then have "clean_text x = re_sub False (Plus (Atom Space)) '' '' (strip (join '' '' fw))"
      by (simp add: clean_text_def Let_def cleaned_def fw_def)
    also have "\<dots> = join '' '' fw"
      by (simp add: strip_join [OF plain] re_sub_def sub_spaces_join [OF plain])
    finally show ?thesis using words by blast
  qed
qed

text \<open>
  C4 (as amended). Cleaning a cleaned text again returns it unchanged whenever the
  cleaned text holds no amount-shaped token and no ID-label token and neither begins nor
  ends with one of the characters that \<^verbatim>\<open>strip(' |,.-\<bullet>')\<close> removes.
\<close>

theorem C4_clean_text_idempotent_when_settled:
  assumes "\<not> re_search False CLEAN_AMOUNT (clean_text x)"
    and "\<not> re_search True CLEAN_ID (clean_text x)"
    and "strip_chars STRIP_CHARS (clean_text x) = clean_text x"
  shows "clean_text (clean_text x) = clean_text x"
proof -
  obtain fw where y: "clean_text x = join '' '' fw"
    and words: "\<forall>w\<in>set fw. w \<noteq> [] \<and> (\<forall>c\<in>set w. \<not> is_space c)
                              \<and> lower w \<notin> set NOISE_KEYWORDS"
    using clean_text_shape by blast
  from words have plain: "\<forall>w\<in>set fw. w \<noteq> [] \<and> (\<forall>c\<in>set w. \<not> is_space c)" by blast
  show ?thesis
  proof (cases "fw = []")
    case True
    with y show ?thesis by (simp add: clean_text_Nil)
  next
    case False
    let ?y = "join '' '' fw"
    have 1: "re_sub False CLEAN_AMOUNT [] ?y = ?y"
      using assms(1) by (simp add: y re_sub_no_match)
    have 2: "re_sub True CLEAN_ID [] ?y = ?y"
      using assms(2) by (simp add: y re_sub_no_match)
    have 3: "strip_chars STRIP_CHARS ?y = ?y"
      using assms(3) by (simp add: y)
    have 4: "split_ws (lower ?y) = map lower fw"
      by (simp add: split_ws_lower split_ws_join [OF plain])
    have "filter (\<lambda>word. word \<noteq> []) (map lower fw) = map lower fw"
      using plain by (simp add: filter_id_conv lower_eq_Nil)
    moreover from False words have "\<not> list_all (\<lambda>word. word \<in> set NOISE_KEYWORDS) (map lower fw)"
      by (cases fw) (auto simp: list_all_iff)
    ultimately have 5: "\<not> list_all (\<lambda>word. word \<in> set NOISE_KEYWORDS)
                            (filter (\<lambda>word. word \<noteq> []) (split_ws (lower ?y)))"
      by (simp add: 4)
    have 6: "filter (\<lambda>w. lower w \<notin> set NOISE_KEYWORDS) (split_ws ?y) = fw"
      using words by (simp add: split_ws_join [OF plain] filter_id_conv)
    have "clean_text ?y = re_sub False (Plus (Atom Space)) '' '' (strip ?y)"
      using 5 by (simp add: clean_text_def Let_def 1 2 3 6)
    also have "\<dots> = ?y"
      by (simp add: strip_join [OF plain] re_sub_def sub_spaces_join [OF plain])
    finally show ?thesis by (simp add: y)
  qed
qed

theorem C4_clean_text_idempotent_when_settled_witness:
  "clean_text ''Island Vibes Lounge -25.00 ID: 8AB123'' = ''Island Vibes Lounge''
   \<and> \<not> re_search False CLEAN_AMOUNT ''Island Vibes Lounge''
   \<and> \<not> re_search True CLEAN_ID ''Island Vibes Lounge''
   \<and> strip_chars STRIP_CHARS ''Island Vibes Lounge'' = ''Island Vibes Lounge''
   \<and> clean_text ''Island Vibes Lounge'' = ''Island Vibes Lounge''"
proof -
  let ?x = "''Island Vibes Lounge -25.00 ID: 8AB123''"
  have c: "clean_text ?x = ''Island Vibes Lounge''" by code_simp
  have 1: "\<not> re_search False CLEAN_AMOUNT ''Island Vibes Lounge''" by code_simp
  have 2: "\<not> re_search True CLEAN_ID ''Island Vibes Lounge''" by code_simp
  have 3: "strip_chars STRIP_CHARS ''Island Vibes Lounge'' = ''Island Vibes Lounge''"
    by code_simp
  from C4_clean_text_idempotent_when_settled [of ?x] c 1 2 3 show ?thesis by simp
qed

text \<open>
  C4 as stated fails. Dropping the noise word of \<^verbatim>\<open>USD -foo\<close> leaves \<^verbatim>\<open>-foo\<close>, whose
  leading dash only the second cleaning strips; removing the amount \<^verbatim>\<open>-1.00\<close> from
  \<^verbatim>\<open>5-1.00.00\<close> leaves \<^verbatim>\<open>5.00\<close>, itself an amount that the second cleaning removes.
\<close>

theorem C4_idempotence_counterexample:
  "clean_text ''USD -foo'' = ''-foo''
   \<and> clean_text (clean_text ''USD -foo'') = ''foo''
   \<and> clean_text (clean_text ''USD -foo'') \<noteq> clean_text ''USD -foo''
   \<and> clean_text ''5-1.00.00'' = ''5.00''
   \<and> clean_text (clean_text ''5-1.00.00'') = []"
  by code_simp

section \<open>The scenarios of the specification\<close>

text \<open>
  Scenario A gives the transaction that the specification states. In scenario B the payee
  is as stated; the amount is the subject of C1. An all-noise chunk cleans to the empty
  string and is not scored.
\<close>

lemma scenario_A:
  "map (\<lambda>t. (date t, amount t, total t, clean_payee t))
       (parse_lines [''12/01/2025 Payment to: Island Vibes Lounge -25.00'', ''ID: 8AB123''])
   = [(''12/01/2025'', ''-25.00'', ''-25.00'', Inr ''Island Vibes Lounge'')]"
  by code_simp

lemma scenario_B_payee:
  "map clean_payee
       (parse_lines [''12/03/2025'', ''Direct Deposit: ACME PAYROLL SERVICES LLC'', ''1500.00''])
   = [Inr ''ACME PAYROLL SERVICES LLC'']"
  by code_simp

lemma all_noise_chunk_collapses:
  "clean_text ''PayPal Balance USD'' = []
   \<and> score_chunks [''PayPal Balance USD''] = Inr []"
  by code_simp

end
